theory Spec2Isabelle
  imports Main
begin


section \<open>Python strings\<close>

text \<open>
  A Python \<open>str\<close> is a sequence of Unicode code points.  The chapter patterns of
  \<open>convert.py\<close> mention characters far outside ASCII, so a text is a list of code points
  (natural numbers), not a list of 8-bit characters.  \<open>ustr\<close> embeds an ASCII literal.
\<close>

type_synonym codepoint = nat
type_synonym pystr = "codepoint list"

definition ustr :: "string \<Rightarrow> pystr" where
  "ustr cs = map of_char cs"

text \<open>The line feed, \<open>'\n'\<close>.\<close>

definition LF :: codepoint where
  "LF = 10"

text \<open>
  Truth value of an optional string argument (\<open>if not lang:\<close>, \<open>if id:\<close>): both
  \<open>None\<close> and the empty string are false.
\<close>

fun truthy :: "pystr option \<Rightarrow> bool" where
  "truthy None = False"
| "truthy (Some v) = (v \<noteq> [])"

text \<open>\<open>str(i)\<close> for a non-negative integer: its decimal digits.\<close>

fun str_of_nat :: "nat \<Rightarrow> pystr" where
  "str_of_nat n = (if n < 10 then [48 + n] else str_of_nat (n div 10) @ [48 + n mod 10])"

text \<open>\<open>body.replace('\n', '<br/>')\<close>.\<close>

fun replace_nl :: "pystr \<Rightarrow> pystr" where
  "replace_nl [] = []"
| "replace_nl (c # cs) = (if c = LF then ustr ''<br/>'' @ replace_nl cs else c # replace_nl cs)"


section \<open>The regular expressions of the source and their matcher\<close>

text \<open>
  The two patterns of \<open>txt_to_epub\<close> are sequences of five kinds of item: the anchor
  \<open>^\<close> (under \<open>re.M\<close>), a character class, a greedy star of a character class, and the
  two parentheses of the one capture group.  The classes are \<open>\s\<close>, the dot (without
  \<open>re.S\<close>: everything but the line feed) and a bracketed set of characters.
\<close>

datatype cls = Space | Dot | Set pystr

text \<open>
  \<open>\s\<close> on a \<open>str\<close> pattern is Unicode white space: the characters for which
  \<open>str.isspace\<close> holds.
\<close>

definition is_space :: "codepoint \<Rightarrow> bool" where
  "is_space c \<longleftrightarrow>
     (9 \<le> c \<and> c \<le> 13) \<or> (28 \<le> c \<and> c \<le> 32) \<or> c = 133 \<or> c = 160 \<or> c = 5760 \<or>
     (8192 \<le> c \<and> c \<le> 8202) \<or> c = 8232 \<or> c = 8233 \<or> c = 8239 \<or> c = 8287 \<or> c = 12288"

fun cls_mem :: "cls \<Rightarrow> codepoint \<Rightarrow> bool" where
  "cls_mem Space c = is_space c"
| "cls_mem Dot c = (c \<noteq> LF)"
| "cls_mem (Set cs) c = (c \<in> set cs)"

datatype atom = Bol | Star cls | One cls | GOpen | GClose

text \<open>
  The backtracking matcher.  \<open>sre_match rx adv prev s n g\<close> matches the items \<open>rx\<close>
  against the rest \<open>s\<close> of the text; \<open>prev\<close> is the character before \<open>s\<close> (\<open>None\<close>
  at the start of the text), \<open>n\<close> the number of characters this attempt has consumed,
  \<open>g\<close> the start and end of the group so far.  The result is the group's start, its end
  and the end of the match, counted from where the attempt started.

  \<^item> \<open>^\<close> under \<open>re.M\<close> holds at the start of the text and after a line feed.
  \<^item> A star is greedy: it takes one more character of its class and goes on, and only
    when everything after that fails does it try the rest of the pattern where it stands.
  \<^item> \<open>adv\<close> is the engine's \<open>must_advance\<close>: set after an empty match, it rejects an
    empty match at the same place.
\<close>

fun sre_match ::
  "atom list \<Rightarrow> bool \<Rightarrow> codepoint option \<Rightarrow> pystr \<Rightarrow> nat \<Rightarrow> nat \<times> nat \<Rightarrow> (nat \<times> nat \<times> nat) option"
where
  "sre_match [] adv prev s n g = (if adv \<and> n = 0 then None else Some (fst g, snd g, n))"
| "sre_match (Bol # as) adv prev s n g =
     (if prev = None \<or> prev = Some LF then sre_match as adv prev s n g else None)"
| "sre_match (One c # as) adv prev s n g =
     (case s of
        [] \<Rightarrow> None
      | x # xs \<Rightarrow> if cls_mem c x then sre_match as adv (Some x) xs (Suc n) g else None)"
| "sre_match (Star c # as) adv prev [] n g = sre_match as adv prev [] n g"
| "sre_match (Star c # as) adv prev (x # xs) n g =
     (if cls_mem c x
      then (case sre_match (Star c # as) adv (Some x) xs (Suc n) g of
              Some r \<Rightarrow> Some r
            | None \<Rightarrow> sre_match as adv prev (x # xs) n g)
      else sre_match as adv prev (x # xs) n g)"
| "sre_match (GOpen # as) adv prev s n g = sre_match as adv prev s n (n, snd g)"
| "sre_match (GClose # as) adv prev s n g = sre_match as adv prev s n (fst g, n)"

text \<open>
  The search tries each position from left to right and returns the first match:
  its start, the group's start and end, and its end, as offsets into \<open>s\<close>.
  \<open>must_advance\<close> only concerns the first position.
\<close>

fun shift_span :: "nat \<times> nat \<times> nat \<times> nat \<Rightarrow> nat \<times> nat \<times> nat \<times> nat" where
  "shift_span (st, gs, ge, en) = (Suc st, Suc gs, Suc ge, Suc en)"

fun re_search ::
  "atom list \<Rightarrow> bool \<Rightarrow> codepoint option \<Rightarrow> pystr \<Rightarrow> (nat \<times> nat \<times> nat \<times> nat) option"
where
  "re_search rx adv prev [] =
     (case sre_match rx adv prev [] 0 (0, 0) of
        Some (gs, ge, en) \<Rightarrow> Some (0, gs, ge, en)
      | None \<Rightarrow> None)"
| "re_search rx adv prev (x # xs) =
     (case sre_match rx adv prev (x # xs) 0 (0, 0) of
        Some (gs, ge, en) \<Rightarrow> Some (0, gs, ge, en)
      | None \<Rightarrow> map_option shift_span (re_search rx False (Some x) xs))"

text \<open>
  \<open>re.split(regex, text, flags=re.M)\<close> for a pattern with one capture group: for each
  match, left to right, the text since the previous match, then the text of the group;
  at the end the text after the last match.  The search resumes where the match ended,
  and after an empty match it must advance.  The top-level call is
  \<open>re_split rx False None text\<close>.
\<close>

function re_split :: "atom list \<Rightarrow> bool \<Rightarrow> codepoint option \<Rightarrow> pystr \<Rightarrow> pystr list" where
  "re_split rx adv prev s =
     (case re_search rx adv prev s of
        None \<Rightarrow> [s]
      | Some (st, gs, ge, en) \<Rightarrow>
          take st s # take (ge - gs) (drop gs s) #
          re_split rx (en = st) (if en = 0 then prev else Some (s ! (en - 1))) (drop en s))"
  by pat_completeness auto

text \<open>
  The matches themselves, as \<open>re.finditer\<close> enumerates them (the text of the group of
  each): the boundary matches that \<open>re_split\<close> cuts the text at.
\<close>

function re_finditer :: "atom list \<Rightarrow> bool \<Rightarrow> codepoint option \<Rightarrow> pystr \<Rightarrow> pystr list" where
  "re_finditer rx adv prev s =
     (case re_search rx adv prev s of
        None \<Rightarrow> []
      | Some (st, gs, ge, en) \<Rightarrow>
          take (ge - gs) (drop gs s) #
          re_finditer rx (en = st) (if en = 0 then prev else Some (s ! (en - 1))) (drop en s))"
  by pat_completeness auto

text \<open>
  The same matches by their places in the text, as \<open>m.start()\<close>, \<open>m.start(1)\<close>,
  \<open>m.end(1)\<close> and \<open>m.end()\<close> give them; \<open>off\<close> is where \<open>s\<close> begins in the
  text.  \<open>slice i j s\<close> is \<open>s[i:j]\<close>.
\<close>

definition slice :: "nat \<Rightarrow> nat \<Rightarrow> pystr \<Rightarrow> pystr" where
  "slice i j s = take (j - i) (drop i s)"

function re_spans ::
  "atom list \<Rightarrow> bool \<Rightarrow> codepoint option \<Rightarrow> pystr \<Rightarrow> nat \<Rightarrow> (nat \<times> nat \<times> nat \<times> nat) list"
where
  "re_spans rx adv prev s off =
     (case re_search rx adv prev s of
        None \<Rightarrow> []
      | Some (st, gs, ge, en) \<Rightarrow>
          (off + st, off + gs, off + ge, off + en) #
          re_spans rx (en = st) (if en = 0 then prev else Some (s ! (en - 1))) (drop en s) (off + en))"
  by pat_completeness auto


subsection \<open>The two patterns\<close>

text \<open>
  Line 133, for \<open>'zh-cn'\<close>: the anchor, \<open>\s*\<close>, then in the group one of the two
  markers U+7B2C and U+5377, any number of numerals (ASCII digits, U+4E00, U+4E8C, U+4E09,
  U+56DB, U+4E94, U+516D, U+4E03, U+516B, U+4E5D, U+5341, U+96F6, U+3007, U+767E, U+5343,
  U+4E24), one of the units U+7AE0, U+56DE, U+90E8, U+8282, U+96C6, U+5377, and \<open>.*\<close>;
  after the group \<open>\s*\<close>.
\<close>

definition zh_markers :: pystr where
  "zh_markers = [31532, 21367]"

definition zh_numerals :: pystr where
  "zh_numerals = ustr ''0123456789'' @
     [19968, 20108, 19977, 22235, 20116, 20845, 19971, 20843, 20061, 21313,
      38646, 12295, 30334, 21315, 20004]"

definition zh_units :: pystr where
  "zh_units = [31456, 22238, 37096, 33410, 38598, 21367]"

definition regex_zh :: "atom list" where
  "regex_zh =
     [Bol, Star Space, GOpen, One (Set zh_markers), Star (Set zh_numerals), One (Set zh_units),
      Star Dot, GClose, Star Space]"

text \<open>
  Line 137, for \<open>'en'\<close>: \<open>^\s*([Chapter].*)\s*\<close>.  The brackets make \<open>[Chapter]\<close> a
  character class: one character out of C, h, a, p, t, e, r.
\<close>

definition regex_en :: "atom list" where
  "regex_en = [Bol, Star Space, GOpen, One (Set (ustr ''Chapter'')), Star Dot, GClose, Star Space]"

text \<open>The label of line 134 is U+76EE U+5F55.\<close>

definition spine_uid_zh :: pystr where
  "spine_uid_zh = [30446, 24405]"

definition spine_uid_en :: pystr where
  "spine_uid_en = ustr ''Table of Content''"

text \<open>
  Lines 131 to 141: the pattern and the label of a language, \<open>None\<close> for the
  \<open>else\<close> branch.
\<close>

definition lang_settings :: "pystr \<Rightarrow> (atom list \<times> pystr) option" where
  "lang_settings lang =
     (if lang = ustr ''zh-cn'' then Some (regex_zh, spine_uid_zh)
      else if lang = ustr ''en'' then Some (regex_en, spine_uid_en)
      else None)"


section \<open>The book, as the source builds it through ebooklib\<close>

record html =
  html_title :: pystr
  html_file_name :: pystr
  html_lang :: pystr
  html_content :: pystr

datatype item = EpubHtml html | EpubNcx | EpubNav pystr

datatype link = Link pystr pystr pystr

datatype spine_entry = SpineStr pystr | SpineItem html

record book =
  book_title :: "pystr option"
  book_language :: "pystr option"
  book_identifier :: "pystr option"
  book_authors :: "pystr list"
  items :: "item list"
  toc :: "link list"
  spine :: "spine_entry list"

definition EpubBook :: book where
  "EpubBook = \<lparr>book_title = None, book_language = None, book_identifier = None, book_authors = [],
     items = [], toc = [], spine = []\<rparr>"

text \<open>The body of the loop of lines 148 to 155, for one index \<open>i\<close>.\<close>

definition chap_file :: "nat \<Rightarrow> pystr" where
  "chap_file i = ustr ''chap_'' @ str_of_nat i @ ustr ''.xhtml''"

definition make_chapter :: "pystr \<Rightarrow> pystr list \<Rightarrow> nat \<Rightarrow> html" where
  "make_chapter lang splits i =
     \<lparr>html_title = splits ! i,
      html_file_name = chap_file i,
      html_lang = lang,
      html_content =
        ustr ''<html><body><p>'' @ replace_nl (splits ! (i + 1)) @ ustr ''</p></body></html>''\<rparr>"

definition add_chapter :: "pystr \<Rightarrow> pystr list \<Rightarrow> nat \<Rightarrow> book \<Rightarrow> book" where
  "add_chapter lang splits i b =
     (let chapter = make_chapter lang splits i
      in b\<lparr>items := items b @ [EpubHtml chapter],
           toc := toc b @ [Link (chap_file i) (splits ! i) (ustr ''chap'' @ str_of_nat i)],
           spine := spine b @ [SpineItem chapter]\<rparr>)"

text \<open>
  \<open>for i in range(1, len(splits) - 1, 2)\<close>: the loop runs while \<open>i < len(splits) - 1\<close>,
  so both \<open>splits[i]\<close> and \<open>splits[i+1]\<close> exist in every round.
\<close>

function chapter_loop :: "pystr \<Rightarrow> pystr list \<Rightarrow> nat \<Rightarrow> book \<Rightarrow> book" where
  "chapter_loop lang splits i b =
     (if int i < int (length splits) - 1
      then chapter_loop lang splits (i + 2) (add_chapter lang splits i b)
      else b)"
  by pat_completeness auto
termination
  by (relation "measure (\<lambda>(lang, splits, i, b). length splits - i)") auto

text \<open>
  Lines 120 to 158: the book built from the resolved title and language, the optional
  identifier and author, and the text; \<open>None\<close> when the language has no pattern
  (the \<open>return\<close> of line 141).
\<close>

definition make_book ::
  "pystr \<Rightarrow> pystr \<Rightarrow> pystr option \<Rightarrow> pystr option \<Rightarrow> pystr \<Rightarrow> book option"
where
  "make_book title lang book_id author book_content =
     (let b0 = EpubBook\<lparr>book_title := Some title, book_language := Some lang\<rparr>;
          b1 = (if truthy book_id then b0\<lparr>book_identifier := book_id\<rparr> else b0);
          b2 = (case author of
                  None \<Rightarrow> b1
                | Some a \<Rightarrow> if a \<noteq> [] then b1\<lparr>book_authors := book_authors b1 @ [a]\<rparr> else b1)
      in case lang_settings lang of
           None \<Rightarrow> None
         | Some (regex, spine_uid) \<Rightarrow>
             (let splits = re_split regex False None book_content;
                  b3 = b2\<lparr>spine := [SpineStr spine_uid]\<rparr>;
                  b4 = chapter_loop lang splits 1 b3
              in Some (b4\<lparr>items := items b4 @ [EpubNcx, EpubNav spine_uid]\<rparr>)))"


section \<open>The conversion\<close>

text \<open>
  What \<open>txt_to_epub\<close> takes from outside:
  \<^item> the file it reads (\<open>Inl\<close> when \<open>open\<close> or \<open>read\<close> raises);
  \<^item> the detector of \<open>langdetect\<close> (\<open>Inl e\<close> when it raises the exception \<open>e\<close>,
    caught by line 116);
  \<^item> the two path functions \<open>os.path.splitext(p)[0]\<close> and \<open>os.path.split(p)[-1]\<close>;
  \<^item> \<open>epub.write_epub(name, book, {})\<close> of ebooklib: \<open>Inl e\<close> when it raises \<open>e\<close>,
    \<open>Inr True\<close> when it returns and the file is there, \<open>Inr False\<close> when it returns
    and has left no file.
\<close>

record env =
  read_file :: "pystr \<Rightarrow> pystr + pystr"
  detect :: "pystr \<Rightarrow> pystr + pystr"
  splitext_root :: "pystr \<Rightarrow> pystr"
  basename :: "pystr \<Rightarrow> pystr"
  write_epub :: "pystr \<Rightarrow> book \<Rightarrow> pystr + bool"

text \<open>
  What a call does: the exception it lets through, if any, the lines it prints, the
  texts it passes to the detector, and the files that exist afterwards because
  \<open>epub.write_epub\<close> wrote them.
\<close>

record outcome =
  raised :: "pystr option"
  printed :: "pystr list"
  detect_calls :: "pystr list"
  written :: "(pystr \<times> book) list"

definition returned :: outcome where
  "returned = \<lparr>raised = None, printed = [], detect_calls = [], written = []\<rparr>"

text \<open>\<open>if not x: x = d\<close>.\<close>

fun or_default :: "pystr option \<Rightarrow> pystr \<Rightarrow> pystr" where
  "or_default None d = d"
| "or_default (Some v) d = (if v \<noteq> [] then v else d)"

text \<open>
  Lines 113 to 118: the language, the lines printed and the texts given to the detector.
\<close>

definition detect_lang :: "env \<Rightarrow> pystr \<Rightarrow> pystr \<times> pystr list \<times> pystr list" where
  "detect_lang e book_content =
     (case detect e book_content of
        Inr l \<Rightarrow> (l, [], [book_content])
      | Inl exn \<Rightarrow>
          (ustr ''zh-cn'',
           [ustr ''Error in language detection: '' @ exn @ ustr '', use zh-cn instead.''],
           [book_content]))"

fun resolve_lang :: "env \<Rightarrow> pystr \<Rightarrow> pystr option \<Rightarrow> pystr \<times> pystr list \<times> pystr list" where
  "resolve_lang e book_content None = detect_lang e book_content"
| "resolve_lang e book_content (Some l) =
     (if l \<noteq> [] then (l, [], []) else detect_lang e book_content)"

text \<open>
  Lines 162 and 163.  The call of \<open>write_epub\<close> stands in no \<open>try\<close>: what it raises
  leaves \<open>txt_to_epub\<close>, and then line 163 prints nothing.  When it returns, line 163
  prints the path, whether or not the file is there.
\<close>

definition write_and_report :: "env \<Rightarrow> pystr \<Rightarrow> book \<Rightarrow> pystr list \<Rightarrow> pystr list \<Rightarrow> outcome" where
  "write_and_report e epub_path b msgs calls =
     (case write_epub e epub_path b of
        Inl exn \<Rightarrow> \<lparr>raised = Some exn, printed = msgs, detect_calls = calls, written = []\<rparr>
      | Inr created \<Rightarrow>
          \<lparr>raised = None,
           printed = msgs @ [ustr ''Save .epub file to: '' @ epub_path],
           detect_calls = calls,
           written = (if created then [(epub_path, b)] else [])\<rparr>)"

definition txt_to_epub ::
  "env \<Rightarrow> pystr option \<Rightarrow> pystr option \<Rightarrow> pystr option \<Rightarrow> pystr option \<Rightarrow> pystr option \<Rightarrow>
   pystr option \<Rightarrow> outcome"
where
  "txt_to_epub e txt_file_path epub_file_path author title book_id lang =
     (case txt_file_path of
        None \<Rightarrow> returned
      | Some path \<Rightarrow>
          if path = [] then returned
          else
            (case read_file e path of
               Inl exn \<Rightarrow> returned\<lparr>raised := Some exn\<rparr>
             | Inr book_content \<Rightarrow>
                 (let epub_path = or_default epub_file_path (splitext_root e path @ ustr ''.epub'');
                      title1 = or_default title (splitext_root e (basename e path));
                      (lang1, msgs, calls) = resolve_lang e book_content lang
                  in case make_book title1 lang1 book_id author book_content of
                       None \<Rightarrow>
                         \<lparr>raised = None,
                          printed = msgs @ [ustr ''Language '' @ [34] @ lang1 @ [34] @ ustr '' not supported''],
                          detect_calls = calls,
                          written = []\<rparr>
                     | Some b \<Rightarrow> write_and_report e epub_path b msgs calls)))"


text \<open>
  The content units of a book: the chapter documents among its items, in order (the
  NCX and the navigation document are not content).
\<close>

fun content_units :: "item list \<Rightarrow> html list" where
  "content_units [] = []"
| "content_units (EpubHtml h # xs) = h # content_units xs"
| "content_units (EpubNcx # xs) = content_units xs"
| "content_units (EpubNav u # xs) = content_units xs"


section \<open>What a boundary looks like\<close>

text \<open>
  The form of a heading, in the words of each pattern.  For \<open>'en'\<close>: one of the
  letters C, h, a, p, t, e, r, then the rest of the line.  For \<open>'zh-cn'\<close>: a marker,
  numerals (none is allowed), a unit, then the rest of the line.
\<close>

definition en_heading :: "pystr \<Rightarrow> bool" where
  "en_heading h =
     (case h of
        [] \<Rightarrow> False
      | x # rest \<Rightarrow> x \<in> set (ustr ''Chapter'') \<and> LF \<notin> set rest)"

definition zh_heading :: "pystr \<Rightarrow> bool" where
  "zh_heading h =
     (case h of
        [] \<Rightarrow> False
      | x # r \<Rightarrow>
          x \<in> set zh_markers \<and>
          (case dropWhile (\<lambda>c. c \<in> set zh_numerals) r of
             [] \<Rightarrow> False
           | u # rest \<Rightarrow> u \<in> set zh_units \<and> LF \<notin> set rest))"

text \<open>
  What makes a match attempt of the pattern of \<open>'zh-cn'\<close> succeed, once the leading
  white space is taken off: a marker, numerals (none is allowed), a unit.
\<close>

definition zh_starts :: "pystr \<Rightarrow> bool" where
  "zh_starts r =
     (case r of
        [] \<Rightarrow> False
      | x # xs \<Rightarrow>
          x \<in> set zh_markers \<and>
          (case dropWhile (\<lambda>c. c \<in> set zh_numerals) xs of
             [] \<Rightarrow> False
           | u # rest \<Rightarrow> u \<in> set zh_units))"

text \<open>
  A boundary in a text, by its places: the match starts at the start of the text or
  right after a line feed, white space runs up to the heading, the heading satisfies
  \<open>ok\<close> and ends where its line ends, and white space runs up to the end of the
  match.
\<close>

fun boundary_at :: "(pystr \<Rightarrow> bool) \<Rightarrow> pystr \<Rightarrow> nat \<times> nat \<times> nat \<times> nat \<Rightarrow> bool" where
  "boundary_at ok t (st, gs, ge, en) \<longleftrightarrow>
     st \<le> gs \<and> gs \<le> ge \<and> ge \<le> en \<and> en \<le> length t \<and>
     (st = 0 \<or> t ! (st - 1) = LF) \<and>
     list_all is_space (slice st gs t) \<and>
     ok (slice gs ge t) \<and>
     (ge = length t \<or> t ! ge = LF) \<and>
     list_all is_space (slice ge en t)"

text \<open>
  Putting a split together again, with a gap before and after every heading.
\<close>

fun weave :: "pystr list \<Rightarrow> pystr list \<Rightarrow> pystr" where
  "weave (p # h # rest) (a # d # gaps) = p @ a @ h @ d @ weave rest gaps"
| "weave ps gaps = concat ps"

text \<open>
  A pattern is framed when each of its matches is a run of white space, the group, and
  another run of white space, starts at the beginning of a line, its group satisfies
  \<open>ok\<close>, and the group ends where its line ends.
\<close>

definition framed :: "atom list \<Rightarrow> (pystr \<Rightarrow> bool) \<Rightarrow> bool" where
  "framed rx ok \<longleftrightarrow>
     (\<forall>adv prev s gs ge en.
        sre_match rx adv prev s 0 (0, 0) = Some (gs, ge, en) \<longrightarrow>
        (\<exists>A G D R. s = A @ G @ D @ R \<and> gs = length A \<and> ge = length A + length G \<and>
           en = length A + length G + length D \<and>
           list_all is_space A \<and> list_all is_space D \<and> ok G \<and>
           (prev = None \<or> prev = Some LF) \<and> (D @ R = [] \<or> hd (D @ R) = LF)))"


section \<open>Example inputs\<close>

text \<open>The text \<open>"Chapter 1\nHello\nChapter 2\nWorld"\<close>.\<close>

definition text9 :: pystr where
  "text9 =
     ustr ''Chapter 1'' @ [LF] @ ustr ''Hello'' @ [LF] @ ustr ''Chapter 2'' @ [LF] @ ustr ''World''"

text \<open>
  The two path functions as \<open>posixpath\<close> has them: the part after the last slash, and
  the path without the extension of that part (a name of dots only, or with leading dots
  only, has no extension).
\<close>

definition posix_basename :: "pystr \<Rightarrow> pystr" where
  "posix_basename p = rev (takeWhile (\<lambda>c. c \<noteq> 47) (rev p))"

definition posix_splitext_root :: "pystr \<Rightarrow> pystr" where
  "posix_splitext_root p =
     (let base = posix_basename p;
          ext = rev (takeWhile (\<lambda>c. c \<noteq> 46) (rev base));
          stem = take (length base - length ext - 1) base
      in if 46 \<in> set base \<and> list_ex (\<lambda>c. c \<noteq> 46) stem
         then take (length p - length ext - 1) p
         else p)"

text \<open>
  An environment in which every file holds that text, the detector answers
  \<open>'zh-cn'\<close> and every write succeeds, and one whose detector raises.
\<close>

definition env0 :: env where
  "env0 = \<lparr>read_file = (\<lambda>p. Inr text9), detect = (\<lambda>t. Inr (ustr ''zh-cn'')),
            splitext_root = posix_splitext_root, basename = posix_basename,
            write_epub = (\<lambda>p b. Inr True)\<rparr>"

definition env_fail :: env where
  "env_fail = \<lparr>read_file = (\<lambda>p. Inr text9), detect = (\<lambda>t. Inl (ustr ''No features in text.'')),
            splitext_root = posix_splitext_root, basename = posix_basename,
            write_epub = (\<lambda>p b. Inr True)\<rparr>"






text \<open>A text with a line that starts with a lower-case \<open>a\<close>.\<close>

definition text_apple :: pystr where
  "text_apple =
     ustr ''Preface'' @ [LF] @ ustr ''apple pie'' @ [LF] @ ustr ''Chapter 1'' @ [LF] @ ustr ''Text''"

text \<open>A text that ends with a chapter line: the last chapter has an empty body.\<close>

definition text_tail :: pystr where
  "text_tail = ustr ''Intro'' @ [LF] @ ustr ''Chapter 1''"


section \<open>Properties of the matcher\<close>

lemma sre_match_bounds:
  "sre_match rx adv prev s n g = Some (gs, ge, en) \<Longrightarrow>
     n \<le> en \<and> en \<le> n + length s \<and> (adv \<longrightarrow> 0 < en)"
proof (induction rx adv prev s n g rule: sre_match.induct)
  case (3 c as adv prev s n g)
  then show ?case by (cases s) (auto split: if_splits)
next
  case (5 c as adv prev x xs n g)
  then show ?case by (auto split: if_splits option.splits)
qed (auto split: if_splits)

lemma re_search_bounds:
  "re_search rx adv prev s = Some (st, gs, ge, en) \<Longrightarrow>
     st \<le> en \<and> en \<le> length s \<and> (adv \<longrightarrow> 0 < en)"
proof (induction s arbitrary: adv prev st gs ge en)
  case Nil
  then show ?case by (auto split: option.splits dest: sre_match_bounds)
next
  case (Cons x xs)
  show ?case
  proof (cases "sre_match rx adv prev (x # xs) 0 (0, 0)")
    case None
    with Cons.prems obtain st' gs' ge' en' where
      r: "re_search rx False (Some x) xs = Some (st', gs', ge', en')"
      and e: "st = Suc st'" "en = Suc en'"
      by (cases "re_search rx False (Some x) xs") auto
    from Cons.IH [OF r] e show ?thesis by simp
  next
    case (Some r)
    with Cons.prems show ?thesis by (auto dest: sre_match_bounds)
  qed
qed

text \<open>
  Every match ends no earlier than it starts, inside the text, and an empty match is
  never followed by another one at the same place: the splitting terminates.
\<close>

termination re_split
proof (relation "measure (\<lambda>(rx, adv, prev, s). 2 * length s + (if adv then 0 else 1))", goal_cases)
  case 1
  then show ?case by simp
next
  case (2 rx adv prev s x2 st y gs z ge en)
  then have "re_search rx adv prev s = Some (st, gs, ge, en)" by simp
  from re_search_bounds [OF this] show ?case by auto
qed

termination re_spans
proof (relation "measure (\<lambda>(rx, adv, prev, s, off). 2 * length s + (if adv then 0 else 1))", goal_cases)
  case 1
  then show ?case by simp
next
  case (2 rx adv prev s off x2 st y gs z ge en)
  then have "re_search rx adv prev s = Some (st, gs, ge, en)" by simp
  from re_search_bounds [OF this] show ?case by auto
qed

termination re_finditer
proof (relation "measure (\<lambda>(rx, adv, prev, s). 2 * length s + (if adv then 0 else 1))", goal_cases)
  case 1
  then show ?case by simp
next
  case (2 rx adv prev s x2 st y gs z ge en)
  then have "re_search rx adv prev s = Some (st, gs, ge, en)" by simp
  from re_search_bounds [OF this] show ?case by auto
qed

text \<open>
  The recursive equations are unfolded where a proof asks for them, never silently.
\<close>

declare re_split.simps [simp del]
declare re_finditer.simps [simp del]
declare re_spans.simps [simp del]
declare chapter_loop.simps [simp del]
declare str_of_nat.simps [simp del]


section \<open>The splitting and the chapter loop\<close>

lemma re_split_length:
  "length (re_split rx adv prev s) = 2 * length (re_finditer rx adv prev s) + 1"
proof (induction rx adv prev s rule: re_split.induct)
  case (1 rx adv prev s)
  show ?case
  proof (cases "re_search rx adv prev s")
    case None
    then show ?thesis by (simp add: re_split.simps [of rx adv prev s] re_finditer.simps [of rx adv prev s])
  next
    case (Some r)
    obtain st gs ge en where r: "r = (st, gs, ge, en)" by (cases r) auto
    from 1 [OF Some [unfolded r] refl refl refl] Some r show ?thesis
      by (simp add: re_split.simps [of rx adv prev s] re_finditer.simps [of rx adv prev s])
  qed
qed

lemma re_split_odd_nth:
  "k < length (re_finditer rx adv prev s) \<Longrightarrow>
     re_split rx adv prev s ! (2 * k + 1) = re_finditer rx adv prev s ! k"
proof (induction rx adv prev s arbitrary: k rule: re_split.induct)
  case (1 rx adv prev s)
  show ?case
  proof (cases "re_search rx adv prev s")
    case None
    with "1.prems" show ?thesis by (simp add: re_finditer.simps [of rx adv prev s])
  next
    case (Some r)
    obtain st gs ge en where r: "r = (st, gs, ge, en)" by (cases r) auto
    note IH = "1.IH" [OF Some [unfolded r] refl refl refl]
    show ?thesis
    proof (cases k)
      case 0
      with Some r show ?thesis
        by (simp add: re_split.simps [of rx adv prev s] re_finditer.simps [of rx adv prev s])
    next
      case (Suc j)
      with "1.prems" Some r have "j < length (re_finditer rx (en = st) (if en = 0 then prev else Some (s ! (en - 1))) (drop en s))"
        by (simp add: re_finditer.simps [of rx adv prev s])
      from IH [OF this] Suc Some r show ?thesis
        by (simp add: re_split.simps [of rx adv prev s] re_finditer.simps [of rx adv prev s])
    qed
  qed
qed

lemma re_split_headings:
  "map (\<lambda>k. re_split rx adv prev s ! (1 + 2 * k)) [0..<length (re_finditer rx adv prev s)] =
     re_finditer rx adv prev s"
  by (rule nth_equalityI) (simp_all add: re_split_odd_nth [simplified])


lemma chapter_loop_items:
  "items (chapter_loop l sp i b) =
     items b @ map (\<lambda>k. EpubHtml (make_chapter l sp (i + 2 * k))) [0..<(length sp - i) div 2]"
proof (induction l sp i b rule: chapter_loop.induct)
  case (1 l sp i b)
  show ?case
  proof (cases "int i < int (length sp) - 1")
    case True
    then have c: "(length sp - i) div 2 = Suc ((length sp - (i + 2)) div 2)" by arith
    from 1 [OF True] True show ?thesis
      by (subst chapter_loop.simps) (simp add: c map_upt_Suc add_chapter_def Let_def del: upt_Suc)
  next
    case False
    then have "(length sp - i) div 2 = 0" by arith
    with False show ?thesis by (subst chapter_loop.simps) simp
  qed
qed

lemma chapter_loop_toc:
  "toc (chapter_loop l sp i b) =
     toc b @ map (\<lambda>k. Link (chap_file (i + 2 * k)) (sp ! (i + 2 * k)) (ustr ''chap'' @ str_of_nat (i + 2 * k)))
       [0..<(length sp - i) div 2]"
proof (induction l sp i b rule: chapter_loop.induct)
  case (1 l sp i b)
  show ?case
  proof (cases "int i < int (length sp) - 1")
    case True
    then have c: "(length sp - i) div 2 = Suc ((length sp - (i + 2)) div 2)" by arith
    from 1 [OF True] True show ?thesis
      by (subst chapter_loop.simps) (simp add: c map_upt_Suc add_chapter_def Let_def del: upt_Suc)
  next
    case False
    then have "(length sp - i) div 2 = 0" by arith
    with False show ?thesis by (subst chapter_loop.simps) simp
  qed
qed

lemma chapter_loop_spine:
  "spine (chapter_loop l sp i b) =
     spine b @ map (\<lambda>k. SpineItem (make_chapter l sp (i + 2 * k))) [0..<(length sp - i) div 2]"
proof (induction l sp i b rule: chapter_loop.induct)
  case (1 l sp i b)
  show ?case
  proof (cases "int i < int (length sp) - 1")
    case True
    then have c: "(length sp - i) div 2 = Suc ((length sp - (i + 2)) div 2)" by arith
    from 1 [OF True] True show ?thesis
      by (subst chapter_loop.simps) (simp add: c map_upt_Suc add_chapter_def Let_def del: upt_Suc)
  next
    case False
    then have "(length sp - i) div 2 = 0" by arith
    with False show ?thesis by (subst chapter_loop.simps) simp
  qed
qed

lemma chapter_loop_meta:
  "book_title (chapter_loop l sp i b) = book_title b \<and>
   book_language (chapter_loop l sp i b) = book_language b \<and>
   book_identifier (chapter_loop l sp i b) = book_identifier b \<and>
   book_authors (chapter_loop l sp i b) = book_authors b"
proof (induction l sp i b rule: chapter_loop.induct)
  case (1 l sp i b)
  show ?case
  proof (cases "int i < int (length sp) - 1")
    case True
    from 1 [OF True] True show ?thesis
      by (subst (1 2 3 4) chapter_loop.simps) (simp add: add_chapter_def Let_def)
  next
    case False
    then show ?thesis by (subst (1 2 3 4) chapter_loop.simps) simp
  qed
qed

lemma content_units_chapters:
  "content_units (map EpubHtml hs @ [EpubNcx, EpubNav u]) = hs"
  by (induction hs) simp_all


section \<open>The languages and the book\<close>

lemma lang_settings_cases:
  "lang_settings l = Some (rx, uid) \<Longrightarrow>
     (l = ustr ''zh-cn'' \<and> rx = regex_zh \<and> uid = spine_uid_zh) \<or>
     (l = ustr ''en'' \<and> rx = regex_en \<and> uid = spine_uid_en)"
  by (auto simp: lang_settings_def split: if_splits)

lemma lang_settings_None:
  "l \<noteq> ustr ''en'' \<Longrightarrow> l \<noteq> ustr ''zh-cn'' \<Longrightarrow> lang_settings l = None"
  by (simp add: lang_settings_def)

lemma lang_settings_en: "lang_settings (ustr ''en'') = Some (regex_en, spine_uid_en)"
  by (simp add: lang_settings_def ustr_def)

lemma make_book_None: "lang_settings l = None \<Longrightarrow> make_book t l i a c = None"
  by (simp add: make_book_def Let_def)

lemma make_book_fields:
  assumes "lang_settings l = Some (rx, uid)"
  shows "\<exists>b. make_book t l i a c = Some b \<and>
           book_title b = Some t \<and> book_language b = Some l \<and>
           items b =
             map (\<lambda>k. EpubHtml (make_chapter l (re_split rx False None c) (1 + 2 * k)))
               [0..<length (re_finditer rx False None c)] @ [EpubNcx, EpubNav uid] \<and>
           toc b =
             map (\<lambda>k. Link (chap_file (1 + 2 * k)) (re_split rx False None c ! (1 + 2 * k))
                        (ustr ''chap'' @ str_of_nat (1 + 2 * k)))
               [0..<length (re_finditer rx False None c)] \<and>
           spine b =
             SpineStr uid #
             map (\<lambda>k. SpineItem (make_chapter l (re_split rx False None c) (1 + 2 * k)))
               [0..<length (re_finditer rx False None c)]"
  using assms
  by (simp add: make_book_def Let_def chapter_loop_items chapter_loop_toc chapter_loop_spine
      chapter_loop_meta re_split_length EpubBook_def split: option.splits)


section \<open>The matches of the two patterns\<close>

lemma star_greedy:
  assumes "\<And>x xs p k g. cls_mem c x \<Longrightarrow> sre_match rest adv p (x # xs) k g = None"
  shows "\<exists>p'. sre_match (Star c # rest) adv prev s n g =
           sre_match rest adv p' (dropWhile (cls_mem c) s) (n + length (takeWhile (cls_mem c) s)) g"
proof (induction s arbitrary: prev n)
  case Nil
  show ?case by auto
next
  case (Cons x xs)
  show ?case
  proof (cases "cls_mem c x")
    case True
    from Cons [of "Some x" "Suc n"] obtain p' where
      p': "sre_match (Star c # rest) adv (Some x) xs (Suc n) g =
         sre_match rest adv p' (dropWhile (cls_mem c) xs) (Suc n + length (takeWhile (cls_mem c) xs)) g"
      by blast
    have "sre_match (Star c # rest) adv prev (x # xs) n g =
            sre_match (Star c # rest) adv (Some x) xs (Suc n) g"
      using True assms [OF True, of prev xs n g] by (simp split: option.splits)
    with p' True show ?thesis
      by (intro exI [of _ p']) simp
  next
    case False
    then show ?thesis by auto
  qed
qed

lemma space_tail:
  "0 < n \<Longrightarrow>
     sre_match [Star Space] adv prev s n g = Some (fst g, snd g, n + length (takeWhile is_space s))"
  by (induction s arbitrary: prev n) auto

lemma line_tail:
  "0 < n \<Longrightarrow>
     sre_match [Star Dot, GClose, Star Space] adv prev s n g =
       Some (fst g,
             n + length (takeWhile (\<lambda>c. c \<noteq> LF) s),
             n + length (takeWhile (\<lambda>c. c \<noteq> LF) s) +
               length (takeWhile is_space (dropWhile (\<lambda>c. c \<noteq> LF) s)))"
  by (induction s arbitrary: prev n) (auto simp: space_tail)

lemma cls_mem_Space: "cls_mem Space = is_space"
  by (rule ext) simp

lemma cls_mem_Set: "cls_mem (Set cs) = (\<lambda>c. c \<in> set cs)"
  by (rule ext) simp

lemma dropWhile_after_takeWhile:
  "\<not> P u \<Longrightarrow> dropWhile P (takeWhile P xs @ u # ys) = u # ys"
  by (induction xs) auto

lemma all_takeWhile: "list_all P (takeWhile P xs)"
  by (induction xs) auto

lemma chapter_letter_not_space: "x \<in> set (ustr ''Chapter'') \<Longrightarrow> \<not> is_space x"
  by (auto simp: ustr_def is_space_def)

lemma zh_marker_not_space: "x \<in> set zh_markers \<Longrightarrow> \<not> is_space x"
  by (auto simp: zh_markers_def is_space_def)

lemma zh_numeral_not_unit: "x \<in> set zh_numerals \<Longrightarrow> x \<notin> set zh_units"
  by (auto simp: zh_numerals_def zh_units_def ustr_def)

lemma en_match_shape:
  assumes "sre_match regex_en adv prev s 0 (0, 0) = Some (gs, ge, en)"
  shows "\<exists>A G D R. s = A @ G @ D @ R \<and> gs = length A \<and> ge = length A + length G \<and>
           en = length A + length G + length D \<and>
           list_all is_space A \<and> list_all is_space D \<and> en_heading G \<and>
           (prev = None \<or> prev = Some LF) \<and> (D @ R = [] \<or> hd (D @ R) = LF)"
proof -
  let ?tl = "[Star Dot, GClose, Star Space]"
  let ?rest = "GOpen # One (Set (ustr ''Chapter'')) # ?tl"
  let ?A = "takeWhile is_space s"
  have bol: "prev = None \<or> prev = Some LF"
    using assms by (simp add: regex_en_def split: if_splits)
  have fail: "\<And>x xs p k g. cls_mem Space x \<Longrightarrow> sre_match ?rest adv p (x # xs) k g = None"
    using chapter_letter_not_space by auto
  from star_greedy [of Space ?rest adv prev s 0 "(0, 0)", OF fail, unfolded cls_mem_Space]
  obtain p' where
    "sre_match (Star Space # ?rest) adv prev s 0 (0, 0) =
       sre_match ?rest adv p' (dropWhile is_space s) (0 + length ?A) (0, 0)"
    by blast
  with assms bol have m: "sre_match (One (Set (ustr ''Chapter'')) # ?tl) adv p'
      (dropWhile is_space s) (length ?A) (length ?A, 0) = Some (gs, ge, en)"
    by (simp add: regex_en_def)
  then obtain x xs where d: "dropWhile is_space s = x # xs" and x: "x \<in> set (ustr ''Chapter'')"
    by (cases "dropWhile is_space s") (auto split: if_splits)
  let ?B = "takeWhile (\<lambda>c. c \<noteq> LF) xs"
  let ?C = "dropWhile (\<lambda>c. c \<noteq> LF) xs"
  let ?D = "takeWhile is_space ?C"
  let ?R = "dropWhile is_space ?C"
  from m d x have r: "gs = length ?A" "ge = length ?A + length (x # ?B)"
    "en = length ?A + length (x # ?B) + length ?D"
    by (simp_all add: line_tail)
  have "s = ?A @ dropWhile is_space s" by simp
  also have "dropWhile is_space s = (x # ?B) @ ?C" by (simp add: d)
  also have "?C = ?D @ ?R" by simp
  finally have s: "s = ?A @ (x # ?B) @ ?D @ ?R" .
  have h: "en_heading (x # ?B)"
    using x by (auto simp: en_heading_def dest: set_takeWhileD)
  have e: "?D @ ?R = [] \<or> hd (?D @ ?R) = LF"
    using hd_dropWhile [of "\<lambda>c. c \<noteq> LF"] by auto
  from s r h bol e all_takeWhile [of is_space s] all_takeWhile [of is_space ?C]
  show ?thesis by blast
qed

lemma zh_match_shape:
  assumes "sre_match regex_zh adv prev s 0 (0, 0) = Some (gs, ge, en)"
  shows "\<exists>A G D R. s = A @ G @ D @ R \<and> gs = length A \<and> ge = length A + length G \<and>
           en = length A + length G + length D \<and>
           list_all is_space A \<and> list_all is_space D \<and> zh_heading G \<and>
           (prev = None \<or> prev = Some LF) \<and> (D @ R = [] \<or> hd (D @ R) = LF)"
proof -
  let ?tl = "[Star Dot, GClose, Star Space]"
  let ?unit = "One (Set zh_units) # ?tl"
  let ?rest = "GOpen # One (Set zh_markers) # Star (Set zh_numerals) # ?unit"
  let ?A = "takeWhile is_space s"
  have bol: "prev = None \<or> prev = Some LF"
    using assms by (simp add: regex_zh_def split: if_splits)
  have fail: "\<And>x xs p k g. cls_mem Space x \<Longrightarrow> sre_match ?rest adv p (x # xs) k g = None"
    using zh_marker_not_space by auto
  from star_greedy [of Space ?rest adv prev s 0 "(0, 0)", OF fail, unfolded cls_mem_Space]
  obtain p' where
    "sre_match (Star Space # ?rest) adv prev s 0 (0, 0) =
       sre_match ?rest adv p' (dropWhile is_space s) (0 + length ?A) (0, 0)"
    by blast
  with assms bol have m: "sre_match (One (Set zh_markers) # Star (Set zh_numerals) # ?unit) adv p'
      (dropWhile is_space s) (length ?A) (length ?A, 0) = Some (gs, ge, en)"
    by (simp add: regex_zh_def)
  then obtain x xs where d: "dropWhile is_space s = x # xs" and x: "x \<in> set zh_markers"
    by (cases "dropWhile is_space s") (auto split: if_splits)
  let ?num = "\<lambda>c. c \<in> set zh_numerals"
  let ?N = "takeWhile ?num xs"
  have fail2: "\<And>x xs p k g. cls_mem (Set zh_numerals) x \<Longrightarrow> sre_match ?unit adv p (x # xs) k g = None"
    using zh_numeral_not_unit by auto
  from star_greedy [of "Set zh_numerals" ?unit adv "Some x" xs "Suc (length ?A)" "(length ?A, 0)",
      OF fail2, unfolded cls_mem_Set]
  obtain p2 where
    "sre_match (Star (Set zh_numerals) # ?unit) adv (Some x) xs (Suc (length ?A)) (length ?A, 0) =
       sre_match ?unit adv p2 (dropWhile ?num xs) (Suc (length ?A) + length ?N) (length ?A, 0)"
    by blast
  with m d x have m2: "sre_match ?unit adv p2 (dropWhile ?num xs) (Suc (length ?A) + length ?N)
      (length ?A, 0) = Some (gs, ge, en)"
    by simp
  then obtain u ys where d2: "dropWhile ?num xs = u # ys" and u: "u \<in> set zh_units"
    by (cases "dropWhile ?num xs") (auto split: if_splits)
  let ?B = "takeWhile (\<lambda>c. c \<noteq> LF) ys"
  let ?C = "dropWhile (\<lambda>c. c \<noteq> LF) ys"
  let ?D = "takeWhile is_space ?C"
  let ?R = "dropWhile is_space ?C"
  let ?G = "x # ?N @ u # ?B"
  from m2 d2 u have r: "gs = length ?A" "ge = length ?A + length ?G"
    "en = length ?A + length ?G + length ?D"
    by (simp_all add: line_tail)
  have "s = ?A @ dropWhile is_space s" by simp
  also have "dropWhile is_space s = x # ?N @ dropWhile ?num xs" by (simp add: d)
  also have "dropWhile ?num xs = (u # ?B) @ ?C" by (simp add: d2)
  also have "?C = ?D @ ?R" by simp
  finally have s: "s = ?A @ ?G @ ?D @ ?R" by simp
  have "dropWhile ?num (?N @ u # ?B) = u # ?B"
    using u zh_numeral_not_unit [of u] by (intro dropWhile_after_takeWhile) blast
  then have h: "zh_heading ?G"
    using x u by (auto simp: zh_heading_def dest: set_takeWhileD)
  have e: "?D @ ?R = [] \<or> hd (?D @ ?R) = LF"
    using hd_dropWhile [of "\<lambda>c. c \<noteq> LF"] by auto
  from s r h bol e all_takeWhile [of is_space s] all_takeWhile [of is_space ?C]
  show ?thesis by blast
qed

lemma framed_en: "framed regex_en en_heading"
  unfolding framed_def by (intro allI impI) (erule en_match_shape)

lemma framed_zh: "framed regex_zh zh_heading"
  unfolding framed_def by (intro allI impI) (erule zh_match_shape)

lemma framedD:
  assumes "framed rx ok" and "sre_match rx adv prev s 0 (0, 0) = Some (gs, ge, en)"
  obtains A G D R where "s = A @ G @ D @ R" "gs = length A" "ge = length A + length G"
    "en = length A + length G + length D" "list_all is_space A" "list_all is_space D" "ok G"
    "prev = None \<or> prev = Some LF" "D @ R = [] \<or> hd (D @ R) = LF"
proof -
  from assms(1) [unfolded framed_def, rule_format, OF assms(2)] obtain A G D R where
    "s = A @ G @ D @ R" "gs = length A" "ge = length A + length G"
    "en = length A + length G + length D" "list_all is_space A" "list_all is_space D" "ok G"
    "prev = None \<or> prev = Some LF" "D @ R = [] \<or> hd (D @ R) = LF"
    by blast
  then show thesis by (rule that)
qed

lemma search_shape:
  assumes "framed rx ok" and "re_search rx adv prev s = Some (st, gs, ge, en)"
  shows "\<exists>P A G D R. s = P @ A @ G @ D @ R \<and> st = length P \<and> gs = length P + length A \<and>
           ge = length P + length A + length G \<and>
           en = length P + length A + length G + length D \<and>
           list_all is_space A \<and> list_all is_space D \<and> ok G \<and>
           (if P = [] then prev = None \<or> prev = Some LF else last P = LF) \<and>
           (D @ R = [] \<or> hd (D @ R) = LF)"
  using assms(2)
proof (induction s arbitrary: adv prev st gs ge en)
  case Nil
  then have m: "sre_match rx adv prev [] 0 (0, 0) = Some (gs, ge, en)" and "st = 0"
    by (auto split: option.splits)
  obtain A G D R where
    "[] = A @ G @ D @ R" "gs = length A" "ge = length A + length G"
    "en = length A + length G + length D" "list_all is_space A" "list_all is_space D" "ok G"
    "prev = None \<or> prev = Some LF" "D @ R = [] \<or> hd (D @ R) = LF"
    by (rule framedD [OF assms(1) m])
  with \<open>st = 0\<close> show ?case
    by (intro exI [of _ "[]"] exI [of _ A] exI [of _ G] exI [of _ D] exI [of _ R]) simp
next
  case (Cons x xs)
  show ?case
  proof (cases "sre_match rx adv prev (x # xs) 0 (0, 0)")
    case (Some r)
    with Cons.prems have m: "sre_match rx adv prev (x # xs) 0 (0, 0) = Some (gs, ge, en)"
      and "st = 0"
      by auto
    obtain A G D R where
      "x # xs = A @ G @ D @ R" "gs = length A" "ge = length A + length G"
      "en = length A + length G + length D" "list_all is_space A" "list_all is_space D" "ok G"
      "prev = None \<or> prev = Some LF" "D @ R = [] \<or> hd (D @ R) = LF"
      by (rule framedD [OF assms(1) m])
    with \<open>st = 0\<close> show ?thesis
      by (intro exI [of _ "[]"] exI [of _ A] exI [of _ G] exI [of _ D] exI [of _ R]) simp
  next
    case None
    with Cons.prems obtain st' gs' ge' en' where
      r: "re_search rx False (Some x) xs = Some (st', gs', ge', en')"
      and e: "st = Suc st'" "gs = Suc gs'" "ge = Suc ge'" "en = Suc en'"
      by (cases "re_search rx False (Some x) xs") auto
    from Cons.IH [OF r] obtain P A G D R where
      "xs = P @ A @ G @ D @ R" "st' = length P" "gs' = length P + length A"
      "ge' = length P + length A + length G" "en' = length P + length A + length G + length D"
      "list_all is_space A" "list_all is_space D" "ok G"
      "if P = [] then Some x = None \<or> Some x = Some LF else last P = LF"
      "D @ R = [] \<or> hd (D @ R) = LF"
      by blast
    with e show ?thesis
      by (intro exI [of _ "x # P"] exI [of _ A] exI [of _ G] exI [of _ D] exI [of _ R])
         (simp split: if_splits)
  qed
qed

lemma search_shapeE:
  assumes "framed rx ok" and "re_search rx adv prev s = Some (st, gs, ge, en)"
  obtains P A G D R where "s = P @ A @ G @ D @ R" "take st s = P"
    "take (ge - gs) (drop gs s) = G" "drop en s = R"
    "list_all is_space A" "list_all is_space D" "ok G"
proof -
  from search_shape [OF assms] obtain P A G D R where
    s: "s = P @ A @ G @ D @ R" and l: "st = length P" "gs = length P + length A"
      "ge = length P + length A + length G" "en = length P + length A + length G + length D"
      and sp: "list_all is_space A" "list_all is_space D" "ok G"
    by blast
  have "take st s = P" "take (ge - gs) (drop gs s) = G" "drop en s = R"
    unfolding s l by simp_all
  with s show thesis using sp by (rule that)
qed

lemma filter_spaces: "list_all is_space A \<Longrightarrow> filter (\<lambda>c. \<not> is_space c) A = []"
  by (induction A) auto

lemma split_keeps_text:
  assumes "framed rx ok"
  shows "filter (\<lambda>c. \<not> is_space c) (concat (re_split rx adv prev s)) =
           filter (\<lambda>c. \<not> is_space c) s"
  using assms
proof (induction rx adv prev s rule: re_split.induct)
  case (1 rx adv prev s)
  show ?case
  proof (cases "re_search rx adv prev s")
    case None
    then show ?thesis by (simp add: re_split.simps [of rx adv prev s])
  next
    case (Some r)
    obtain st gs ge en where r: "r = (st, gs, ge, en)" by (cases r) auto
    note found = Some [unfolded r]
    note IH = "1.IH" [OF found refl refl refl "1.prems"]
    obtain P A G D R where
      s: "s = P @ A @ G @ D @ R" and t: "take st s = P" "take (ge - gs) (drop gs s) = G"
      "drop en s = R" and sp: "list_all is_space A" "list_all is_space D" and "ok G"
      by (rule search_shapeE [OF "1.prems" found])
    have c: "concat (re_split rx adv prev s) =
        P @ G @ concat (re_split rx (en = st) (if en = 0 then prev else Some (s ! (en - 1))) R)"
      by (simp add: re_split.simps [of rx adv prev s] found t)
    have f: "filter (\<lambda>c. \<not> is_space c) s =
        filter (\<lambda>c. \<not> is_space c) P @ filter (\<lambda>c. \<not> is_space c) G @
        filter (\<lambda>c. \<not> is_space c) R"
      by (subst s) (simp add: filter_spaces sp)
    from IH have
      "filter (\<lambda>c. \<not> is_space c)
         (concat (re_split rx (en = st) (if en = 0 then prev else Some (s ! (en - 1))) R)) =
       filter (\<lambda>c. \<not> is_space c) R"
      by (simp only: t)
    then show ?thesis by (simp only: c f filter_append)
  qed
qed

lemma split_weave:
  assumes "framed rx ok"
  shows "\<exists>gaps. length gaps = 2 * length (re_finditer rx adv prev s) \<and>
           list_all (list_all is_space) gaps \<and> weave (re_split rx adv prev s) gaps = s"
  using assms
proof (induction rx adv prev s rule: re_split.induct)
  case (1 rx adv prev s)
  show ?case
  proof (cases "re_search rx adv prev s")
    case None
    then show ?thesis
      by (intro exI [of _ "[]"])
         (simp add: re_split.simps [of rx adv prev s] re_finditer.simps [of rx adv prev s])
  next
    case (Some r)
    obtain st gs ge en where r: "r = (st, gs, ge, en)" by (cases r) auto
    note found = Some [unfolded r]
    let ?p = "if en = 0 then prev else Some (s ! (en - 1))"
    obtain P A G D R where
      s: "s = P @ A @ G @ D @ R" and t: "take st s = P" "take (ge - gs) (drop gs s) = G"
      "drop en s = R" and sp: "list_all is_space A" "list_all is_space D" and "ok G"
      by (rule search_shapeE [OF "1.prems" found])
    from "1.IH" [OF found refl refl refl "1.prems"] obtain gaps where
      g: "length gaps = 2 * length (re_finditer rx (en = st) ?p R)"
        "list_all (list_all is_space) gaps" "weave (re_split rx (en = st) ?p R) gaps = R"
      unfolding t by blast
    have sp': "re_split rx adv prev s = P # G # re_split rx (en = st) ?p R"
      by (simp add: re_split.simps [of rx adv prev s] found t)
    have fi: "re_finditer rx adv prev s = G # re_finditer rx (en = st) ?p R"
      by (simp add: re_finditer.simps [of rx adv prev s] found t)
    have "weave (re_split rx adv prev s) (A # D # gaps) = s"
      by (subst s) (simp add: sp' g(3))
    with g(1,2) sp show ?thesis
      by (intro exI [of _ "A # D # gaps"]) (simp add: fi)
  qed
qed

lemma finditer_headings:
  assumes "framed rx ok"
  shows "list_all ok (re_finditer rx adv prev s)"
  using assms
proof (induction rx adv prev s rule: re_finditer.induct)
  case (1 rx adv prev s)
  show ?case
  proof (cases "re_search rx adv prev s")
    case None
    then show ?thesis by (simp add: re_finditer.simps [of rx adv prev s])
  next
    case (Some r)
    obtain st gs ge en where r: "r = (st, gs, ge, en)" by (cases r) auto
    note found = Some [unfolded r]
    obtain P A G D R where
      s: "s = P @ A @ G @ D @ R" and t: "take st s = P" "take (ge - gs) (drop gs s) = G"
      "drop en s = R" and sp: "list_all is_space A" "list_all is_space D" and ok: "ok G"
      by (rule search_shapeE [OF "1.prems" found])
    from "1.IH" [OF found refl refl refl "1.prems"] ok show ?thesis
      by (simp add: re_finditer.simps [of rx adv prev s] found t)
  qed
qed

lemma boundary_decomposed:
  assumes "t = Q @ A @ G @ D @ R" and "Q = [] \<or> last Q = LF"
    and "list_all is_space A" and "ok G" and "list_all is_space D"
    and "D @ R = [] \<or> hd (D @ R) = LF"
  shows "boundary_at ok t
           (length Q, length Q + length A, length Q + length A + length G,
            length Q + length A + length G + length D)"
proof -
  have 1: "slice (length Q) (length Q + length A) t = A"
    "slice (length Q + length A) (length Q + length A + length G) t = G"
    "slice (length Q + length A + length G) (length Q + length A + length G + length D) t = D"
    unfolding assms(1) slice_def by simp_all
  have 2: "length Q = 0 \<or> t ! (length Q - 1) = LF"
  proof (cases "Q = []")
    case False
    with assms(2) have "last Q = LF" by simp
    with False show ?thesis
      unfolding assms(1) by (simp add: nth_append last_conv_nth)
  qed simp
  have 3: "length Q + length A + length G = length t \<or> t ! (length Q + length A + length G) = LF"
  proof (cases "D @ R = []")
    case True
    then show ?thesis unfolding assms(1) by simp
  next
    case False
    with assms(6) have "hd (D @ R) = LF" by blast
    moreover have "t ! (length Q + length A + length G) = (D @ R) ! 0"
    proof -
      have "t = (Q @ A @ G) @ (D @ R)" by (simp add: assms(1))
      then have "t ! (length (Q @ A @ G) + 0) = (D @ R) ! 0"
        by (simp only: nth_append_length_plus)
      then show ?thesis by (simp add: add.assoc)
    qed
    ultimately show ?thesis using False by (simp add: hd_conv_nth)
  qed
  have 4: "length Q + length A + length G + length D \<le> length t"
    unfolding assms(1) by simp
  from 1 2 3 4 assms(3,4,5) show ?thesis by simp
qed

lemma spans_boundaries:
  assumes "framed rx ok" and "off \<le> length t" and "s = drop off t"
    and "prev = (if off = 0 then None else Some (t ! (off - 1)))"
  shows "list_all (boundary_at ok t) (re_spans rx adv prev s off)"
  using assms
proof (induction rx adv prev s off rule: re_spans.induct)
  case (1 rx adv prev s off)
  show ?case
  proof (cases "re_search rx adv prev s")
    case None
    then show ?thesis by (simp add: re_spans.simps [of rx adv prev s off])
  next
    case (Some r)
    obtain st gs ge en where r: "r = (st, gs, ge, en)" by (cases r) auto
    note found = Some [unfolded r]
    let ?p = "if en = 0 then prev else Some (s ! (en - 1))"
    from search_shape [OF "1.prems"(1) found] obtain P A G D R where
      s: "s = P @ A @ G @ D @ R" and l: "st = length P" "gs = length P + length A"
      "ge = length P + length A + length G" "en = length P + length A + length G + length D"
      and sp: "list_all is_space A" "list_all is_space D" "ok G"
      and ls: "if P = [] then prev = None \<or> prev = Some LF else last P = LF"
      and le: "D @ R = [] \<or> hd (D @ R) = LF"
      by blast
    let ?Q = "take off t @ P"
    have t: "t = ?Q @ A @ G @ D @ R"
      using "1.prems"(3) s append_take_drop_id [of off t] by simp
    have lq: "length ?Q = off + st" using "1.prems"(2) l by simp
    have q: "?Q = [] \<or> last ?Q = LF"
    proof (cases "P = []")
      case False
      with ls show ?thesis by simp
    next
      case True
      show ?thesis
      proof (cases "off = 0")
        case True
        then show ?thesis using \<open>P = []\<close> by simp
      next
        case False
        with "1.prems"(4) ls \<open>P = []\<close> have "t ! (off - 1) = LF" by simp
        moreover have "last (take off t) = t ! (off - 1)"
        proof -
          have "take off t \<noteq> []" "length (take off t) = off"
            using False "1.prems"(2) by auto
          then have "last (take off t) = take off t ! (off - 1)"
            by (simp add: last_conv_nth)
          also have "\<dots> = t ! (off - 1)" using False by simp
          finally show ?thesis .
        qed
        ultimately show ?thesis using \<open>P = []\<close> by simp
      qed
    qed
    from boundary_decomposed
      [where ok = ok and t = t and Q = ?Q and A = A and G = G and D = D and R = R,
       OF t q sp(1) sp(3) sp(2) le]
    have b: "boundary_at ok t (off + st, off + gs, off + ge, off + en)"
      using lq l by (simp add: add.assoc)
    have en: "en \<le> length s" using s l by simp
    have 2: "off + en \<le> length t" using en "1.prems"(2,3) by simp
    have 3: "drop en s = drop (off + en) t" using "1.prems"(3) by (simp add: add.commute)
    have 4: "?p = (if off + en = 0 then None else Some (t ! (off + en - 1)))"
    proof (cases "en = 0")
      case True
      then show ?thesis using "1.prems"(4) by simp
    next
      case False
      then have "s ! (en - 1) = t ! (off + (en - 1))"
        using "1.prems"(2,3) by simp
      with False show ?thesis by simp
    qed
    from "1.IH" [OF found refl refl refl "1.prems"(1) 2 3 4] b show ?thesis
      by (simp add: re_spans.simps [of rx adv prev s off] found)
  qed
qed

lemma spans_headings:
  assumes "s = drop off t"
  shows "map (\<lambda>(st, gs, ge, en). slice gs ge t) (re_spans rx adv prev s off) =
           re_finditer rx adv prev s"
  using assms
proof (induction rx adv prev s off rule: re_spans.induct)
  case (1 rx adv prev s off)
  show ?case
  proof (cases "re_search rx adv prev s")
    case None
    then show ?thesis
      by (simp add: re_spans.simps [of rx adv prev s off] re_finditer.simps [of rx adv prev s])
  next
    case (Some r)
    obtain st gs ge en where r: "r = (st, gs, ge, en)" by (cases r) auto
    note found = Some [unfolded r]
    have 3: "drop en s = drop (off + en) t" using "1.prems" by (simp add: add.commute)
    have g: "slice (off + gs) (off + ge) t = take (ge - gs) (drop gs s)"
      using "1.prems" by (simp add: slice_def add.commute)
    from "1.IH" [OF found refl refl refl 3] g show ?thesis
      by (simp add: re_spans.simps [of rx adv prev s off] re_finditer.simps [of rx adv prev s] found)
  qed
qed

lemma zh_attempt:
  "(sre_match regex_zh adv prev s 0 (0, 0) \<noteq> None) =
     ((prev = None \<or> prev = Some LF) \<and> zh_starts (dropWhile is_space s))"
proof (cases "prev = None \<or> prev = Some LF")
  case False
  then show ?thesis by (auto simp: regex_zh_def)
next
  case bol: True
  let ?tl = "[Star Dot, GClose, Star Space]"
  let ?unit = "One (Set zh_units) # ?tl"
  let ?rest = "GOpen # One (Set zh_markers) # Star (Set zh_numerals) # ?unit"
  let ?A = "takeWhile is_space s"
  let ?num = "\<lambda>c. c \<in> set zh_numerals"
  have fail: "\<And>x xs p k g. cls_mem Space x \<Longrightarrow> sre_match ?rest adv p (x # xs) k g = None"
    using zh_marker_not_space by auto
  from star_greedy [of Space ?rest adv prev s 0 "(0, 0)", OF fail, unfolded cls_mem_Space]
  obtain p' where
    "sre_match (Star Space # ?rest) adv prev s 0 (0, 0) =
       sre_match ?rest adv p' (dropWhile is_space s) (0 + length ?A) (0, 0)"
    by blast
  with bol have m: "sre_match regex_zh adv prev s 0 (0, 0) =
      sre_match (One (Set zh_markers) # Star (Set zh_numerals) # ?unit) adv p'
        (dropWhile is_space s) (length ?A) (length ?A, 0)"
    by (simp add: regex_zh_def)
  show ?thesis
  proof (cases "dropWhile is_space s")
    case Nil
    with m bol show ?thesis by (simp add: zh_starts_def del: dropWhile_eq_Nil_conv)
  next
    case (Cons x xs)
    show ?thesis
    proof (cases "x \<in> set zh_markers")
      case False
      with m bol Cons show ?thesis by (simp add: zh_starts_def)
    next
      case True
      have fail2: "\<And>x xs p k g. cls_mem (Set zh_numerals) x \<Longrightarrow>
          sre_match ?unit adv p (x # xs) k g = None"
        using zh_numeral_not_unit by auto
      from star_greedy [of "Set zh_numerals" ?unit adv "Some x" xs "Suc (length ?A)" "(length ?A, 0)",
          OF fail2, unfolded cls_mem_Set]
      obtain p2 where
        "sre_match (Star (Set zh_numerals) # ?unit) adv (Some x) xs (Suc (length ?A)) (length ?A, 0) =
           sre_match ?unit adv p2 (dropWhile ?num xs) (Suc (length ?A) + length (takeWhile ?num xs))
             (length ?A, 0)"
        by blast
      with m Cons True have m2: "sre_match regex_zh adv prev s 0 (0, 0) =
          sre_match ?unit adv p2 (dropWhile ?num xs) (Suc (length ?A) + length (takeWhile ?num xs))
            (length ?A, 0)"
        by simp
      show ?thesis
      proof (cases "dropWhile ?num xs")
        case Nil
        with m2 bol Cons True show ?thesis
          by (simp add: zh_starts_def del: dropWhile_eq_Nil_conv)
      next
        case u: (Cons u ys)
        with m2 bol Cons True show ?thesis by (simp add: zh_starts_def line_tail)
      qed
    qed
  qed
qed


section \<open>The examples, evaluated\<close>

lemmas eval_simps =
  re_split.simps re_finditer.simps chapter_loop.simps str_of_nat.simps
  regex_en_def regex_zh_def zh_markers_def zh_numerals_def zh_units_def
  ustr_def LF_def is_space_def

lemma finditer_text9:
  "re_finditer regex_en False None text9 = [ustr ''Chapter 1'', ustr ''Chapter 2'']"
  by (simp add: text9_def eval_simps)

lemma split_text9:
  "re_split regex_en False None text9 =
     [[], ustr ''Chapter 1'', ustr ''Hello'' @ [LF], ustr ''Chapter 2'', ustr ''World'']"
  by (simp add: text9_def eval_simps)

lemma finditer_text_tail:
  "re_finditer regex_en False None text_tail = [ustr ''Chapter 1'']"
  by (simp add: text_tail_def eval_simps)

lemma split_text_tail:
  "re_split regex_en False None text_tail = [ustr ''Intro'' @ [LF], ustr ''Chapter 1'', []]"
  by (simp add: text_tail_def eval_simps)


section \<open>The segmentation\<close>

text \<open>
  C1 as stated fails: the pieces of the split of the two-chapter text, put together
  again, are not the text, because the line feed that ends a heading line is matched
  outside the group and dropped.
\<close>

theorem split_drops_newline_counterexample:
  "concat (re_split regex_en False None text9) \<noteq> text9"
  by (simp add: split_text9) (simp add: text9_def ustr_def LF_def)

text \<open>
  C1, as the code has it.  For every text and both supported languages the split loses
  white space only: the text is the preamble, headings and bodies in order with a run of
  white space put back before and after each heading (the blank characters and line
  feeds that \<open>\s*\<close> matches outside the group), and so the characters that are not
  white space are all kept, in order.
\<close>

theorem split_lossless_up_to_space:
  assumes "lang_settings l = Some (rx, uid)"
  shows "(\<exists>gaps. length gaps = 2 * length (re_finditer rx False None text) \<and>
            list_all (list_all is_space) gaps \<and>
            weave (re_split rx False None text) gaps = text) \<and>
         filter (\<lambda>c. \<not> is_space c) (concat (re_split rx False None text)) =
           filter (\<lambda>c. \<not> is_space c) text"
proof -
  from lang_settings_cases [OF assms] have "framed rx en_heading \<or> framed rx zh_heading"
    using framed_en framed_zh by auto
  then show ?thesis
    using split_weave [of rx en_heading False None "text"] split_weave [of rx zh_heading False None "text"]
      split_keeps_text [of rx en_heading False None "text"]
      split_keeps_text [of rx zh_heading False None "text"]
    by blast
qed

theorem split_lossless_up_to_space_witness:
  "lang_settings (ustr ''en'') = Some (regex_en, spine_uid_en) \<and>
   list_all (list_all is_space) [[], [LF], [], [LF]] \<and>
   weave (re_split regex_en False None text9) [[], [LF], [], [LF]] = text9 \<and>
   filter (\<lambda>c. \<not> is_space c) (concat (re_split regex_en False None text9)) =
     filter (\<lambda>c. \<not> is_space c) text9"
proof -
  have a: "list_all (list_all is_space) [[], [LF], [], [LF]]"
    by (simp add: LF_def is_space_def)
  have b: "weave (re_split regex_en False None text9) [[], [LF], [], [LF]] = text9"
    by (simp add: split_text9) (simp add: text9_def)
  from split_lossless_up_to_space [OF lang_settings_en, of text9]
  have c: "filter (\<lambda>c. \<not> is_space c) (concat (re_split regex_en False None text9)) =
     filter (\<lambda>c. \<not> is_space c) text9"
    by blast
  from lang_settings_en a b c show ?thesis by blast
qed

text \<open>
  C2.  The pattern of line 137 does not ask for the word \<open>Chapter\<close>: the line
  \<open>apple pie\<close> is a chapter boundary as well, since it starts with one of the letters
  of the class \<open>[Chapter]\<close>.
\<close>

theorem letter_class_boundary:
  "re_split regex_en False None text_apple =
     [ustr ''Preface'' @ [LF], ustr ''apple pie'', [], ustr ''Chapter 1'', ustr ''Text''] \<and>
   re_finditer regex_en False None text_apple = [ustr ''apple pie'', ustr ''Chapter 1'']"
  by (simp add: text_apple_def eval_simps)

text \<open>
  The same for \<open>'en'\<close>: a boundary is any line whose first character that is not
  white space is one of the seven letters.
\<close>

lemma en_boundary_shape:
  "list_all en_heading (re_finditer regex_en False None text)"
  using framed_en by (rule finditer_headings)

text \<open>
  C3 as stated fails: the line U+7B2C U+7AE0, a marker directly followed by a unit, is a
  chapter boundary.
\<close>

theorem marker_unit_counterexample:
  "re_finditer regex_zh False None [31532, 31456] = [[31532, 31456]]"
  by (simp add: eval_simps)

text \<open>
  C3, as the code has it.  With the language \<open>'zh-cn'\<close> every boundary match starts
  at the start of a line, and consists, after white space, of a marker (U+7B2C or
  U+5377), then numerals, of which there may be none, then a unit (U+7AE0, U+56DE,
  U+90E8, U+8282, U+96C6 or U+5377), then the rest of that line; the headings are these
  matches without the white space around them.  A numeral is not asked for: an attempt
  at a place succeeds exactly when the place is the start of a line and a marker,
  numerals or none, and a unit follow the white space there.
\<close>

theorem zh_boundary_shape:
  "list_all (boundary_at zh_heading text) (re_spans regex_zh False None text 0) \<and>
   map (\<lambda>(st, gs, ge, en). slice gs ge text) (re_spans regex_zh False None text 0) =
     re_finditer regex_zh False None text \<and>
   (sre_match regex_zh adv prev s 0 (0, 0) \<noteq> None) =
     ((prev = None \<or> prev = Some LF) \<and> zh_starts (dropWhile is_space s))"
  using spans_boundaries [OF framed_zh, of 0 "text" "text" None False]
    spans_headings [of "text" 0 "text" regex_zh False None] zh_attempt [of adv prev s]
  by simp

theorem zh_boundary_shape_witness:
  "re_spans regex_zh False None [31532, 19968, 31456, 10, 120, 10, 31532, 31456] 0 =
     [(0, 0, 3, 4), (6, 6, 8, 8)] \<and>
   boundary_at zh_heading [31532, 19968, 31456, 10, 120, 10, 31532, 31456] (0, 0, 3, 4) \<and>
   boundary_at zh_heading [31532, 19968, 31456, 10, 120, 10, 31532, 31456] (6, 6, 8, 8) \<and>
   re_finditer regex_zh False None [31532, 19968, 31456, 10, 120, 10, 31532, 31456] =
     [[31532, 19968, 31456], [31532, 31456]] \<and>
   sre_match regex_zh False None [31532, 31456] 0 (0, 0) \<noteq> None"
proof -
  let ?t = "[31532, 19968, 31456, 10, 120, 10, 31532, 31456]"
  have sp: "re_spans regex_zh False None ?t 0 = [(0, 0, 3, 4), (6, 6, 8, 8)]"
    by (simp add: eval_simps re_spans.simps)
  have st: "zh_starts (dropWhile is_space [31532, 31456])"
    by (simp add: zh_starts_def zh_markers_def zh_numerals_def zh_units_def is_space_def ustr_def)
  note sh = zh_boundary_shape [of ?t False None "[31532, 31456]"]
  from sh have "list_all (boundary_at zh_heading ?t) (re_spans regex_zh False None ?t 0)"
    by (rule conjunct1)
  then have b: "boundary_at zh_heading ?t (0, 0, 3, 4)" "boundary_at zh_heading ?t (6, 6, 8, 8)"
    by (simp_all add: sp del: boundary_at.simps)
  from sh have "map (\<lambda>(st, gs, ge, en). slice gs ge ?t) (re_spans regex_zh False None ?t 0) =
     re_finditer regex_zh False None ?t"
    by (rule conjunct1 [OF conjunct2])
  then have f: "re_finditer regex_zh False None ?t = [[31532, 19968, 31456], [31532, 31456]]"
    by (simp add: sp slice_def)
  from sh st have a: "sre_match regex_zh False None [31532, 31456] 0 (0, 0) \<noteq> None"
    by blast
  from sp b f a show ?thesis by blast
qed


section \<open>The language: unsupported, explicit, detected\<close>

text \<open>
  C4 as stated fails: with the explicit tag \<open>'fr'\<close> no error reaches the caller.
\<close>

theorem unsupported_language_counterexample:
  "raised (txt_to_epub env0 (Some (ustr ''a.txt'')) None None None None (Some (ustr ''fr''))) = None"
  by (simp add: txt_to_epub_def Let_def make_book_def lang_settings_def env0_def ustr_def)

text \<open>
  C4, as the code has it.  For every resolved language tag other than \<open>'en'\<close> and
  \<open>'zh-cn'\<close>, explicit or detected, the conversion prints
  \<open>Language "..." not supported\<close> and returns normally: it raises nothing, and it
  writes no file.
\<close>

theorem unsupported_language_returns:
  assumes "path \<noteq> []" and "read_file e path = Inr text"
    and "resolve_lang e text lang = (l, msgs, calls)"
    and "l \<noteq> ustr ''en''" and "l \<noteq> ustr ''zh-cn''"
  shows "txt_to_epub e (Some path) epub_file_path author title book_id lang =
           \<lparr>raised = None,
            printed = msgs @ [ustr ''Language '' @ [34] @ l @ [34] @ ustr '' not supported''],
            detect_calls = calls,
            written = []\<rparr>"
  using assms by (simp add: txt_to_epub_def Let_def make_book_None lang_settings_None)

theorem unsupported_language_returns_witness:
  "ustr ''a.txt'' \<noteq> [] \<and> read_file env0 (ustr ''a.txt'') = Inr text9 \<and>
   resolve_lang env0 text9 (Some (ustr ''fr'')) = (ustr ''fr'', [], []) \<and>
   ustr ''fr'' \<noteq> ustr ''en'' \<and> ustr ''fr'' \<noteq> ustr ''zh-cn'' \<and>
   txt_to_epub env0 (Some (ustr ''a.txt'')) None None None None (Some (ustr ''fr'')) =
     \<lparr>raised = None,
      printed = [] @ [ustr ''Language '' @ [34] @ ustr ''fr'' @ [34] @ ustr '' not supported''],
      detect_calls = [],
      written = []\<rparr>"
  using unsupported_language_returns
    [of "ustr ''a.txt''" env0 text9 "Some (ustr ''fr'')" "ustr ''fr''" "[]" "[]" None None None None]
  by (simp add: env0_def ustr_def)

text \<open>
  C5.  For every text and every explicitly supplied (non-empty) language tag, lines 113 to
  118 leave the tag as it is: the result is the tag, nothing is printed, and the detector
  is not called, whatever the text and whatever the detector would have said.  The same
  holds of the whole conversion: it never calls the detector.
\<close>

theorem explicit_lang_unchanged:
  "tag \<noteq> [] \<Longrightarrow>
     resolve_lang e book_content (Some tag) = (tag, [], []) \<and>
     detect_calls (txt_to_epub e txt_file_path epub_file_path author title book_id (Some tag)) = []"
  by (simp add: txt_to_epub_def write_and_report_def returned_def Let_def
      split: option.splits sum.splits)

theorem explicit_lang_unchanged_witness:
  "ustr ''en'' \<noteq> [] \<and>
   resolve_lang env0 [31532, 19968, 31456] (Some (ustr ''en'')) = (ustr ''en'', [], []) \<and>
   detect_calls
     (txt_to_epub env0 (Some (ustr ''a.txt'')) None None None None (Some (ustr ''en''))) = []"
  using explicit_lang_unchanged
    [of "ustr ''en''" env0 "[31532, 19968, 31456]" "Some (ustr ''a.txt'')" None None None None]
  by (simp add: ustr_def)

text \<open>
  C6.  With no explicit language tag (\<open>None\<close> or the empty string), a detector that
  raises makes lines 113 to 118 settle on \<open>'zh-cn'\<close> and print the warning with the
  detector's message; the detector's exception goes no further.  The conversion goes
  on with the pattern of \<open>'zh-cn'\<close>, builds a book of that language and hands it to
  \<open>write_epub\<close>: from there on only \<open>write_epub\<close> decides what the call raises and
  whether the file is there.
\<close>

theorem detector_failure_falls_back:
  assumes "\<not> truthy lang" and "detect e text = Inl exn"
    and "path \<noteq> []" and "read_file e path = Inr text"
  shows "resolve_lang e text lang =
           (ustr ''zh-cn'',
            [ustr ''Error in language detection: '' @ exn @ ustr '', use zh-cn instead.''],
            [text]) \<and>
         (\<exists>b. make_book (or_default title (splitext_root e (basename e path))) (ustr ''zh-cn'')
                  book_id author text = Some b \<and>
              book_language b = Some (ustr ''zh-cn'') \<and>
              txt_to_epub e (Some path) epub_file_path author title book_id lang =
                (case write_epub e (or_default epub_file_path (splitext_root e path @ ustr ''.epub'')) b of
                   Inl werr \<Rightarrow>
                     \<lparr>raised = Some werr,
                      printed =
                        [ustr ''Error in language detection: '' @ exn @ ustr '', use zh-cn instead.''],
                      detect_calls = [text],
                      written = []\<rparr>
                 | Inr created \<Rightarrow>
                     \<lparr>raised = None,
                      printed =
                        [ustr ''Error in language detection: '' @ exn @ ustr '', use zh-cn instead.'',
                         ustr ''Save .epub file to: '' @
                           or_default epub_file_path (splitext_root e path @ ustr ''.epub'')],
                      detect_calls = [text],
                      written =
                        (if created
                         then [(or_default epub_file_path (splitext_root e path @ ustr ''.epub''), b)]
                         else [])\<rparr>))"
proof -
  have r: "resolve_lang e text lang =
           (ustr ''zh-cn'',
            [ustr ''Error in language detection: '' @ exn @ ustr '', use zh-cn instead.''],
            [text])"
    using assms(1,2) by (cases lang) (simp_all add: detect_lang_def)
  have s: "lang_settings (ustr ''zh-cn'') = Some (regex_zh, spine_uid_zh)"
    by (simp add: lang_settings_def)
  from make_book_fields [OF s] obtain b where
    b: "make_book (or_default title (splitext_root e (basename e path))) (ustr ''zh-cn'') book_id author text = Some b"
      "book_language b = Some (ustr ''zh-cn'')"
    by blast
  have "txt_to_epub e (Some path) epub_file_path author title book_id lang =
      write_and_report e (or_default epub_file_path (splitext_root e path @ ustr ''.epub'')) b
        [ustr ''Error in language detection: '' @ exn @ ustr '', use zh-cn instead.''] [text]"
    using r b(1) assms(3,4) by (simp add: txt_to_epub_def Let_def)
  with r b show ?thesis
    by (intro conjI exI [of _ b]) (simp_all add: write_and_report_def split: sum.splits)
qed

theorem detector_failure_falls_back_witness:
  "\<not> truthy None \<and> detect env_fail text9 = Inl (ustr ''No features in text.'') \<and>
   ustr ''a.txt'' \<noteq> [] \<and> read_file env_fail (ustr ''a.txt'') = Inr text9 \<and>
   resolve_lang env_fail text9 None =
     (ustr ''zh-cn'',
      [ustr ''Error in language detection: '' @ ustr ''No features in text.'' @
       ustr '', use zh-cn instead.''],
      [text9]) \<and>
   raised (txt_to_epub env_fail (Some (ustr ''a.txt'')) None None None None None) = None \<and>
   printed (txt_to_epub env_fail (Some (ustr ''a.txt'')) None None None None None) =
     [ustr ''Error in language detection: No features in text., use zh-cn instead.'',
      ustr ''Save .epub file to: a.epub'']"
proof -
  let ?out = "txt_to_epub env_fail (Some (ustr ''a.txt'')) None None None None None"
  have t0: "\<not> truthy None" by simp
  have d: "detect env_fail text9 = Inl (ustr ''No features in text.'')"
    by (simp add: env_fail_def)
  have rd: "read_file env_fail (ustr ''a.txt'') = Inr text9" by (simp add: env_fail_def)
  have n: "ustr ''a.txt'' \<noteq> []" by (simp add: ustr_def)
  have w: "write_epub env_fail = (\<lambda>p b. Inr True)" by (simp add: env_fail_def)
  have p: "splitext_root env_fail (ustr ''a.txt'') = ustr ''a''"
    by (simp add: env_fail_def posix_splitext_root_def posix_basename_def ustr_def Let_def)
  note fb = detector_failure_falls_back [OF t0 d n rd, of None None None None]
  from fb have r: "resolve_lang env_fail text9 None =
     (ustr ''zh-cn'',
      [ustr ''Error in language detection: '' @ ustr ''No features in text.'' @
       ustr '', use zh-cn instead.''],
      [text9])"
    by (rule conjunct1)
  from fb obtain b where "?out =
      (case write_epub env_fail (or_default None (splitext_root env_fail (ustr ''a.txt'') @ ustr ''.epub'')) b of
         Inl werr \<Rightarrow>
           \<lparr>raised = Some werr,
            printed =
              [ustr ''Error in language detection: '' @ ustr ''No features in text.'' @
               ustr '', use zh-cn instead.''],
            detect_calls = [text9],
            written = []\<rparr>
       | Inr created \<Rightarrow>
           \<lparr>raised = None,
            printed =
              [ustr ''Error in language detection: '' @ ustr ''No features in text.'' @
               ustr '', use zh-cn instead.'',
               ustr ''Save .epub file to: '' @
                 or_default None (splitext_root env_fail (ustr ''a.txt'') @ ustr ''.epub'')],
            detect_calls = [text9],
            written =
              (if created
               then [(or_default None (splitext_root env_fail (ustr ''a.txt'') @ ustr ''.epub''), b)]
               else [])\<rparr>)"
    by blast
  then have o: "raised ?out = None"
    "printed ?out =
       [ustr ''Error in language detection: No features in text., use zh-cn instead.'',
        ustr ''Save .epub file to: a.epub'']"
    by (simp_all add: w p) (simp add: ustr_def)
  from t0 d n rd r o show ?thesis by blast
qed


section \<open>The package\<close>




text \<open>
  C8.  The spine of every book built is the label of the language (U+76EE U+5F55 for
  \<open>'zh-cn'\<close>, \<open>Table of Content\<close> for \<open>'en'\<close>) followed by the chapter
  documents, whose titles are the boundary matches of the text in their order.
\<close>

theorem spine_starts_with_navigation:
  assumes "lang_settings l = Some (rx, uid)"
  shows "\<exists>b. make_book t l i a c = Some b \<and>
           spine b = SpineStr uid # map SpineItem (content_units (items b)) \<and>
           map html_title (content_units (items b)) = re_finditer rx False None c \<and>
           uid = (if l = ustr ''zh-cn'' then [30446, 24405] else ustr ''Table of Content'')"
proof -
  from make_book_fields [OF assms, of t i a c] obtain b where
    b: "make_book t l i a c = Some b"
      "items b =
             map (\<lambda>k. EpubHtml (make_chapter l (re_split rx False None c) (1 + 2 * k)))
               [0..<length (re_finditer rx False None c)] @ [EpubNcx, EpubNav uid]"
      "spine b =
             SpineStr uid #
             map (\<lambda>k. SpineItem (make_chapter l (re_split rx False None c) (1 + 2 * k)))
               [0..<length (re_finditer rx False None c)]"
    by blast
  have cu: "content_units (items b) =
      map (\<lambda>k. make_chapter l (re_split rx False None c) (1 + 2 * k))
               [0..<length (re_finditer rx False None c)]"
    using content_units_chapters [of "map (\<lambda>k. make_chapter l (re_split rx False None c) (1 + 2 * k))
               [0..<length (re_finditer rx False None c)]" uid]
    by (simp add: b(2) comp_def)
  have t: "map html_title (content_units (items b)) = re_finditer rx False None c"
    using re_split_headings [of rx False None c]
    by (simp add: cu comp_def make_chapter_def)
  have u: "uid = (if l = ustr ''zh-cn'' then [30446, 24405] else ustr ''Table of Content'')"
    using lang_settings_cases [OF assms]
    by (auto simp: spine_uid_zh_def spine_uid_en_def ustr_def)
  from b(1,3) cu t u show ?thesis by (simp add: comp_def)
qed

theorem spine_starts_with_navigation_witness:
  "lang_settings (ustr ''en'') = Some (regex_en, spine_uid_en) \<and>
   (\<exists>b. make_book (ustr ''t'') (ustr ''en'') None None text9 = Some b \<and>
      spine b = SpineStr spine_uid_en # map SpineItem (content_units (items b)) \<and>
      map html_title (content_units (items b)) = [ustr ''Chapter 1'', ustr ''Chapter 2''] \<and>
      spine_uid_en = ustr ''Table of Content'')"
proof -
  have "\<exists>b. make_book (ustr ''t'') (ustr ''en'') None None text9 = Some b \<and>
      spine b = SpineStr spine_uid_en # map SpineItem (content_units (items b)) \<and>
      map html_title (content_units (items b)) = [ustr ''Chapter 1'', ustr ''Chapter 2''] \<and>
      spine_uid_en = ustr ''Table of Content''"
    using spine_starts_with_navigation [OF lang_settings_en, of "ustr ''t''" None None text9]
    by (simp add: finditer_text9 ustr_def)
  with lang_settings_en show ?thesis by blast
qed

text \<open>
  C9.  The text \<open>"Chapter 1\nHello\nChapter 2\nWorld"\<close> with the language
  \<open>'en'\<close> is split into an empty preamble and the two chapters
  \<open>("Chapter 1", "Hello\n")\<close> and \<open>("Chapter 2", "World")\<close>; the book has exactly
  two content units and two entries in its table of contents, in that order.
\<close>

theorem two_chapter_example:
  "re_split regex_en False None text9 =
     [[], ustr ''Chapter 1'', ustr ''Hello'' @ [LF], ustr ''Chapter 2'', ustr ''World''] \<and>
   map_option (\<lambda>b. content_units (items b)) (make_book title (ustr ''en'') book_id author text9) =
     Some [\<lparr>html_title = ustr ''Chapter 1'', html_file_name = ustr ''chap_1.xhtml'',
             html_lang = ustr ''en'',
             html_content = ustr ''<html><body><p>Hello<br/></p></body></html>''\<rparr>,
           \<lparr>html_title = ustr ''Chapter 2'', html_file_name = ustr ''chap_3.xhtml'',
             html_lang = ustr ''en'',
             html_content = ustr ''<html><body><p>World</p></body></html>''\<rparr>] \<and>
   map_option toc (make_book title (ustr ''en'') book_id author text9) =
     Some [Link (ustr ''chap_1.xhtml'') (ustr ''Chapter 1'') (ustr ''chap1''),
           Link (ustr ''chap_3.xhtml'') (ustr ''Chapter 2'') (ustr ''chap3'')]"
proof -
  from make_book_fields [OF lang_settings_en, of title book_id author text9] obtain b where
    b: "make_book title (ustr ''en'') book_id author text9 = Some b"
      "items b =
             map (\<lambda>k. EpubHtml (make_chapter (ustr ''en'') (re_split regex_en False None text9) (1 + 2 * k)))
               [0..<length (re_finditer regex_en False None text9)] @ [EpubNcx, EpubNav spine_uid_en]"
      "toc b =
             map (\<lambda>k. Link (chap_file (1 + 2 * k)) (re_split regex_en False None text9 ! (1 + 2 * k))
                        (ustr ''chap'' @ str_of_nat (1 + 2 * k)))
               [0..<length (re_finditer regex_en False None text9)]"
    by blast
  have n: "[0..<length (re_finditer regex_en False None text9)] = [0, 1]"
    by (simp add: finditer_text9 upt_rec)
  have i: "content_units (items b) =
     [\<lparr>html_title = ustr ''Chapter 1'', html_file_name = ustr ''chap_1.xhtml'',
             html_lang = ustr ''en'',
             html_content = ustr ''<html><body><p>Hello<br/></p></body></html>''\<rparr>,
           \<lparr>html_title = ustr ''Chapter 2'', html_file_name = ustr ''chap_3.xhtml'',
             html_lang = ustr ''en'',
             html_content = ustr ''<html><body><p>World</p></body></html>''\<rparr>]"
    by (simp add: b(2) n split_text9 make_chapter_def chap_file_def str_of_nat.simps)
       (simp add: ustr_def LF_def)
  have t: "toc b = [Link (ustr ''chap_1.xhtml'') (ustr ''Chapter 1'') (ustr ''chap1''),
           Link (ustr ''chap_3.xhtml'') (ustr ''Chapter 2'') (ustr ''chap3'')]"
    by (simp add: b(3) n split_text9 chap_file_def str_of_nat.simps) (simp add: ustr_def)
  from b(1) i t show ?thesis by (simp add: split_text9)
qed

text \<open>
  C10.  For every text in a supported language, the split has one element more than
  twice the number of boundary matches (the preamble, then a heading and a body for each
  match), and the loop over the odd indices below \<open>len(splits) - 1\<close> adds exactly one
  content unit, one entry of the table of contents and one spine entry for each match;
  the spine has the navigation label besides.  The last match is never dropped, also
  when the text ends with its heading.
\<close>

theorem one_chapter_per_boundary:
  assumes "lang_settings l = Some (rx, uid)"
  shows "\<exists>b. make_book t l i a c = Some b \<and>
           length (re_split rx False None c) = 2 * length (re_finditer rx False None c) + 1 \<and>
           length (content_units (items b)) = length (re_finditer rx False None c) \<and>
           length (toc b) = length (re_finditer rx False None c) \<and>
           length (spine b) = Suc (length (re_finditer rx False None c))"
proof -
  from make_book_fields [OF assms, of t i a c] obtain b where
    b: "make_book t l i a c = Some b"
      "items b =
             map (\<lambda>k. EpubHtml (make_chapter l (re_split rx False None c) (1 + 2 * k)))
               [0..<length (re_finditer rx False None c)] @ [EpubNcx, EpubNav uid]"
      "toc b =
             map (\<lambda>k. Link (chap_file (1 + 2 * k)) (re_split rx False None c ! (1 + 2 * k))
                        (ustr ''chap'' @ str_of_nat (1 + 2 * k)))
               [0..<length (re_finditer rx False None c)]"
      "spine b =
             SpineStr uid #
             map (\<lambda>k. SpineItem (make_chapter l (re_split rx False None c) (1 + 2 * k)))
               [0..<length (re_finditer rx False None c)]"
    by blast
  have cu: "content_units (items b) =
      map (\<lambda>k. make_chapter l (re_split rx False None c) (1 + 2 * k))
               [0..<length (re_finditer rx False None c)]"
    using content_units_chapters [of "map (\<lambda>k. make_chapter l (re_split rx False None c) (1 + 2 * k))
               [0..<length (re_finditer rx False None c)]" uid]
    by (simp add: b(2) comp_def)
  from b(1,3,4) cu show ?thesis by (simp add: re_split_length)
qed

theorem one_chapter_per_boundary_witness:
  "lang_settings (ustr ''en'') = Some (regex_en, spine_uid_en) \<and>
   re_split regex_en False None text_tail = [ustr ''Intro'' @ [LF], ustr ''Chapter 1'', []] \<and>
   (\<exists>b. make_book (ustr ''t'') (ustr ''en'') None None text_tail = Some b \<and>
      length (content_units (items b)) = 1 \<and> length (toc b) = 1 \<and> length (spine b) = 2)"
  using one_chapter_per_boundary [OF lang_settings_en, of "ustr ''t''" None None text_tail]
  by (simp add: lang_settings_en finditer_text_tail split_text_tail numeral_2_eq_2)

end
